theory Spec2Isabelle
  imports Main "HOL-Library.Word"
begin

section \<open>Time and durations\<close>

text \<open>
  A \<^verbatim>\<open>time.Duration\<close> is a signed 64-bit count of nanoseconds: arithmetic on it wraps
  around, and comparisons read it in two's complement. An instant (\<^verbatim>\<open>time.Time\<close>)
  is modelled as an unbounded number of nanoseconds relative to the Unix epoch; the range
  of \<^verbatim>\<open>time.Time\<close> is far larger than that of a duration.
\<close>

type_synonym Time = int
type_synonym Duration = "64 word"

definition Millisecond :: Duration where
  "Millisecond = 1000000"

definition Second :: Duration where
  "Second = 1000 * Millisecond"

definition minDuration :: int where
  "minDuration = - (2 ^ 63)"

definition maxDuration :: int where
  "maxDuration = 2 ^ 63 - 1"

text \<open>
  \<^verbatim>\<open>t.Sub(u)\<close> of the standard library: the difference \<open>t - u\<close>, except that a result
  that does not fit a duration is replaced by the largest (or the smallest) duration.
\<close>

definition Sub :: "Time \<Rightarrow> Time \<Rightarrow> Duration" where
  "Sub t u =
     (let d = t - u
      in if maxDuration < d then word_of_int maxDuration
         else if d < minDuration then word_of_int minDuration
         else word_of_int d)"

text \<open>The zero value of \<^verbatim>\<open>time.Time\<close>: January 1 of year 1, 00:00:00 UTC.\<close>

definition zero_Time :: Time where
  "zero_Time = - 62135596800 * 1000000000"

section \<open>Errors\<close>

text \<open>
  Modelled from the spec: the declaration of \<^verbatim>\<open>ErrTooManyRequests\<close>, which the code
  returns and tests for but which is not declared in \<^verbatim>\<open>errors.go\<close> with the other
  error variables. The spec has it as a single distinguished sentinel error that results
  are compared with; the other errors of that file are pointers to an \<^verbatim>\<open>Error\<close>
  struct, which compare by identity and have no \<^verbatim>\<open>Unwrap\<close> or \<^verbatim>\<open>Is\<close> method.

  The type is that of a Go \<^verbatim>\<open>error\<close> value that is not \<^verbatim>\<open>nil\<close>, as far as
  \<^verbatim>\<open>errors.Is\<close> can tell such values apart. The sentinel is a constructor of its own.
  \<open>PlainError\<close> is an error with neither an \<^verbatim>\<open>Unwrap\<close> nor an \<^verbatim>\<open>Is\<close> method
  (another package variable, a value made by \<^verbatim>\<open>errors.New\<close>,
  \<^verbatim>\<open>context.Canceled\<close>, ...). \<open>WrapError\<close> is an error whose \<^verbatim>\<open>Unwrap\<close> returns
  one error (\<^verbatim>\<open>fmt.Errorf\<close> with one \<^verbatim>\<open>%w\<close>), \<open>JoinError\<close> one whose
  \<^verbatim>\<open>Unwrap\<close> returns a slice of errors (\<^verbatim>\<open>errors.Join\<close>, \<^verbatim>\<open>fmt.Errorf\<close> with
  several \<^verbatim>\<open>%w\<close>). \<open>CustomError m accepts es\<close> is an error of a type with an
  \<^verbatim>\<open>Is\<close> method of its own: \<open>accepts\<close> are the targets for which that method returns
  true, \<open>es\<close> the errors its \<^verbatim>\<open>Unwrap\<close> returns, none when it has no such method.
  A result of type \<^verbatim>\<open>error\<close> is an \<open>error option\<close>, with \<open>None\<close> for \<^verbatim>\<open>nil\<close>.
\<close>

datatype error =
    ErrTooManyRequests
  | PlainError string
  | WrapError string error
  | JoinError "error list"
  | CustomError string "error list" "error list"

text \<open>
  \<^verbatim>\<open>errors.Is(err, target)\<close> of the standard library, for a target that is not
  \<^verbatim>\<open>nil\<close>: an error matches when it is equal to the target, when its own \<^verbatim>\<open>Is\<close>
  method says so, or when an error it unwraps to matches.
\<close>

fun unwrap_is :: "error \<Rightarrow> error \<Rightarrow> bool" where
  "unwrap_is (WrapError m e) target = (WrapError m e = target \<or> unwrap_is e target)"
| "unwrap_is (JoinError es) target =
     (JoinError es = target \<or> (\<exists>e \<in> set es. unwrap_is e target))"
| "unwrap_is (CustomError m accepts es) target =
     (CustomError m accepts es = target \<or> target \<in> set accepts
      \<or> (\<exists>e \<in> set es. unwrap_is e target))"
| "unwrap_is e target = (e = target)"

fun errors_Is :: "error option \<Rightarrow> error \<Rightarrow> bool" where
  "errors_Is None target = False"
| "errors_Is (Some e) target = unwrap_is e target"

section \<open>The quota snapshot\<close>

text \<open>
  The struct \<^verbatim>\<open>RateLimit\<close>. The mutex \<^verbatim>\<open>mu\<close> has no counterpart: the model
  follows one thread of execution, in which every method releases the lock before it
  returns. The counters are Go \<^verbatim>\<open>int\<close>s that are only stored and compared, never
  computed with.
\<close>

record RateLimit =
  total :: int
  used :: int
  remaining :: int
  updated :: Time

text \<open>
  What a call can read and change: the rate limiter \<^verbatim>\<open>r\<close> points to, the clock read
  by \<^verbatim>\<open>time.Now()\<close>, and the state \<open>ext\<close> of whatever else the callbacks use.
\<close>

record 'x world =
  limiter :: RateLimit
  clock :: Time
  ext :: 'x

definition zero_RateLimit :: RateLimit where
  "zero_RateLimit = \<lparr>total = 0, used = 0, remaining = 0, updated = zero_Time\<rparr>"

definition Now :: "'x world \<Rightarrow> Time" where
  "Now w = clock w"

definition Update :: "int \<Rightarrow> int \<Rightarrow> int \<Rightarrow> 'x world \<Rightarrow> 'x world" where
  "Update total' used' remaining' w =
     w\<lparr>limiter := (limiter w)\<lparr>total := total', used := used',
                               remaining := remaining', updated := Now w\<rparr>\<rparr>"

definition Get :: "'x world \<Rightarrow> (int \<times> int \<times> int \<times> Time) \<times> 'x world" where
  "Get w =
     ((total (limiter w), used (limiter w), remaining (limiter w), updated (limiter w)), w)"

section \<open>The retrying call\<close>

text \<open>
  The callbacks of \<^verbatim>\<open>call\<close> are functions on the world: \<^verbatim>\<open>f\<close> returns its error
  and the world it leaves, \<^verbatim>\<open>sleep\<close> gets the context and the duration. The context
  is only handed on to \<^verbatim>\<open>sleep\<close>, so its type is a parameter.
\<close>

type_synonym 'x work = "'x world \<Rightarrow> error option \<times> 'x world"
type_synonym ('c, 'x) sleeper = "'c \<Rightarrow> Duration \<Rightarrow> 'x world \<Rightarrow> error option \<times> 'x world"

text \<open>
  The record of what a call did, in order. It is not part of the program's state: it
  is how the theorems below count pauses and invocations. \<open>Slept d\<close> is a call of
  \<^verbatim>\<open>sleep\<close> with duration \<open>d\<close> that returned \<^verbatim>\<open>nil\<close>, \<open>Aborted d\<close> one that
  returned an error, \<open>Invoked\<close> a call of \<^verbatim>\<open>f\<close>.
\<close>

datatype event = Slept Duration | Aborted Duration | Invoked

definition minimumRateLimitDelay :: Duration where
  "minimumRateLimitDelay = 2500 * Millisecond"

text \<open>
  The first half of the loop body: read the snapshot, decide whether to pause, pause.
  The result is the error of an interrupted pause (\<open>Inl\<close>) or the delay for the next
  pause (\<open>Inr\<close>).
\<close>

definition pause_phase ::
  "'c \<Rightarrow> ('c, 'x) sleeper \<Rightarrow> Duration \<Rightarrow> bool \<Rightarrow> 'x world
     \<Rightarrow> (error + Duration) \<times> 'x world \<times> event list" where
  "pause_phase ctx sleep delay first w =
     (case Get w of
        ((_, _, remaining', when), w1) \<Rightarrow>
          if \<not> first \<or> (Sub (Now w1) when <s 10 * Second \<and> remaining' \<le> 1)
          then (case sleep ctx delay w1 of
                  (Some err, w2) \<Rightarrow> (Inl err, w2, [Aborted delay])
                | (None, w2) \<Rightarrow> (Inr (delay * 2), w2, [Slept delay]))
          else (Inr delay, w1, []))"

text \<open>
  The loop of \<^verbatim>\<open>call\<close>. It has no bound: a call whose work always fails with
  \<^verbatim>\<open>ErrTooManyRequests\<close> never returns, which is the value \<open>None\<close> here.
\<close>

partial_function (option) call_loop ::
  "'c \<Rightarrow> 'x work \<Rightarrow> ('c, 'x) sleeper \<Rightarrow> Duration \<Rightarrow> bool \<Rightarrow> event list \<Rightarrow> 'x world
     \<Rightarrow> (error option \<times> 'x world \<times> event list) option" where
  "call_loop ctx f sleep delay first log w =
     (case pause_phase ctx sleep delay first w of
        (Inl err, w2, evs) \<Rightarrow> Some (Some err, w2, log @ evs)
      | (Inr delay', w2, evs) \<Rightarrow>
          (case f w2 of
             (err, w3) \<Rightarrow>
               if \<not> errors_Is err ErrTooManyRequests
               then Some (err, w3, log @ evs @ [Invoked])
               else call_loop ctx f sleep delay' False (log @ evs @ [Invoked]) w3))"

definition call ::
  "'c \<Rightarrow> 'x work \<Rightarrow> ('c, 'x) sleeper \<Rightarrow> 'x world
     \<Rightarrow> (error option \<times> 'x world \<times> event list) option" where
  "call ctx f sleep w = call_loop ctx f sleep minimumRateLimitDelay True [] w"

text \<open>
  \<^verbatim>\<open>Call\<close> builds the \<^verbatim>\<open>sleep\<close> it gives to \<^verbatim>\<open>call\<close> from a timer: it resets the
  timer to the duration and blocks in a \<^verbatim>\<open>select\<close> on the context's \<^verbatim>\<open>Done\<close> channel
  and the timer's channel. Which of the two wakes the caller, and the world by then, is
  decided by the runtime, which is the parameter \<open>wait\<close>: \<open>CtxDone e\<close> when the context
  won, with \<open>e\<close> what \<^verbatim>\<open>ctx.Err()\<close> then returns, \<open>TimerFired\<close> when the timer did.
\<close>

datatype wake = CtxDone "error option" | TimerFired

type_synonym ('c, 'x) select = "'c \<Rightarrow> Duration \<Rightarrow> 'x world \<Rightarrow> wake \<times> 'x world"

definition timer_sleep :: "('c, 'x) select \<Rightarrow> ('c, 'x) sleeper" where
  "timer_sleep wait ctx d w =
     (case wait ctx d w of
        (CtxDone e, w') \<Rightarrow> (e, w')
      | (TimerFired, w') \<Rightarrow> (None, w'))"

definition Call ::
  "('c, 'x) select \<Rightarrow> 'c \<Rightarrow> 'x work \<Rightarrow> 'x world
     \<Rightarrow> (error option \<times> 'x world \<times> event list) option" where
  "Call wait ctx f w = call ctx f (timer_sleep wait) w"

text \<open>
  The second disjunct of the loop's test: the snapshot is fresh and leaves at most one
  request, so that the first attempt waits although no request has failed yet.
\<close>

definition preventive :: "'x world \<Rightarrow> bool" where
  "preventive w \<longleftrightarrow>
     Sub (Now w) (updated (limiter w)) <s 10 * Second \<and> remaining (limiter w) \<le> 1"

section \<open>Reading the record of a call\<close>

fun pauses :: "event list \<Rightarrow> Duration list" where
  "pauses [] = []"
| "pauses (Slept d # evs) = d # pauses evs"
| "pauses (Aborted d # evs) = pauses evs"
| "pauses (Invoked # evs) = pauses evs"

fun invocations :: "event list \<Rightarrow> nat" where
  "invocations [] = 0"
| "invocations (Invoked # evs) = Suc (invocations evs)"
| "invocations (Slept d # evs) = invocations evs"
| "invocations (Aborted d # evs) = invocations evs"

text \<open>
  The time asked of the completed pauses, in nanoseconds, added up without a bound:
  each duration is read as the signed number it is.
\<close>

definition total_slept :: "event list \<Rightarrow> int" where
  "total_slept evs = sum_list (map sint (pauses evs))"

text \<open>What a finished call amounts to: its result, how often it invoked the work, how long it slept.\<close>

definition summary ::
  "(error option \<times> 'x world \<times> event list) option \<Rightarrow> (error option \<times> nat \<times> int) option" where
  "summary res =
     (case res of
        None \<Rightarrow> None
      | Some (r, w, evs) \<Rightarrow> Some (r, invocations evs, total_slept evs))"

definition record_of :: "(error option \<times> 'x world \<times> event list) option \<Rightarrow> event list" where
  "record_of res = (case res of None \<Rightarrow> [] | Some (r, w, evs) \<Rightarrow> evs)"

text \<open>
  The record expected of \<open>n\<close> attempts that each follow a pause, the first pause being
  \<open>d\<close> and each next one twice the one before.
\<close>

fun backoff :: "Duration \<Rightarrow> nat \<Rightarrow> event list" where
  "backoff d 0 = []"
| "backoff d (Suc n) = Slept d # Invoked # backoff (d * 2) n"

text \<open>
  The shape of the record of a run: turn after turn, each a completed pause and then an
  attempt, except that the first turn has its pause only when one is \<open>due\<close>, and that
  an interrupted pause ends the run.
\<close>

fun paced :: "bool \<Rightarrow> event list \<Rightarrow> bool" where
  "paced due [Aborted d] = due"
| "paced due (Slept d # Invoked # evs) = (due \<and> (evs = [] \<or> paced True evs))"
| "paced due (Invoked # evs) = (\<not> due \<and> (evs = [] \<or> paced True evs))"
| "paced due evs = False"

section \<open>The callbacks of the tests\<close>

text \<open>
  \<^verbatim>\<open>TestRateLimit_Call\<close> runs \<^verbatim>\<open>call\<close> with a work that returns the next error of
  a list at each invocation and with a \<^verbatim>\<open>sleep\<close> that returns at once. Here the list is
  the \<open>ext\<close> part of the world, and a work asked for more than the list holds succeeds.
\<close>

definition test_request :: "error option list work" where
  "test_request w = (case ext w of [] \<Rightarrow> (None, w) | e # es \<Rightarrow> (e, w\<lparr>ext := es\<rparr>))"

definition test_sleep :: "(unit, 'x) sleeper" where
  "test_sleep ctx d w = (None, w)"

text \<open>
  A runtime for a context with a deadline, as \<^verbatim>\<open>context.WithDeadline\<close> makes: the
  context is the instant of its deadline. The timer fires after the duration, at once
  when that is not positive; a deadline before that instant wakes the caller first, with
  \<^verbatim>\<open>context.DeadlineExceeded\<close>, and when both fall on the same instant the timer
  does.
\<close>

definition DeadlineExceeded :: error where
  "DeadlineExceeded = PlainError ''context deadline exceeded''"

definition deadline_wait :: "(Time, 'x) select" where
  "deadline_wait deadline d w =
     (let fire = clock w + max 0 (sint d)
      in if deadline < fire
         then (CtxDone (Some DeadlineExceeded), w\<lparr>clock := max (clock w) deadline\<rparr>)
         else (TimerFired, w\<lparr>clock := fire\<rparr>))"

text \<open>A world of the tests: a snapshot, the time it was taken, the time now, the errors to return.\<close>

definition test_world ::
  "int \<Rightarrow> int \<Rightarrow> int \<Rightarrow> Time \<Rightarrow> Time \<Rightarrow> error option list \<Rightarrow> error option list world" where
  "test_world t u r when now attempts =
     \<lparr>limiter = \<lparr>total = t, used = u, remaining = r, updated = when\<rparr>,
      clock = now, ext = attempts\<rparr>"

section \<open>Durations and freshness\<close>

lemma ten_seconds: "sint (10 * Second) = 10000000000"
  by (simp add: Second_def Millisecond_def)

lemma sint_fits: "- (2 ^ 63) \<le> d \<Longrightarrow> d < 2 ^ 63 \<Longrightarrow> sint (word_of_int d :: Duration) = d"
  by (simp only: signed_of_int) (simp add: signed_take_bit_int_eq_self)

lemma sint_Sub: "sint (Sub t u) = max minDuration (min maxDuration (t - u))"
proof -
  define d where "d = t - u"
  consider "maxDuration < d" | "d < minDuration" | "minDuration \<le> d" "d \<le> maxDuration"
    by linarith
  then have "sint (Sub t u) = max minDuration (min maxDuration d)"
  proof cases
    case 1
    have "sint (word_of_int maxDuration :: Duration) = maxDuration"
      by (rule sint_fits) (simp_all add: maxDuration_def)
    with 1 show ?thesis
      by (simp add: Sub_def Let_def d_def [symmetric] minDuration_def maxDuration_def)
  next
    case 2
    have "sint (word_of_int minDuration :: Duration) = minDuration"
      by (rule sint_fits) (simp_all add: minDuration_def)
    with 2 show ?thesis
      by (simp add: Sub_def Let_def d_def [symmetric] minDuration_def maxDuration_def)
  next
    case 3
    then have "sint (word_of_int d :: Duration) = d"
      by (intro sint_fits) (simp_all add: minDuration_def maxDuration_def)
    with 3 show ?thesis
      by (simp add: Sub_def Let_def d_def [symmetric] minDuration_def maxDuration_def)
  qed
  then show ?thesis by (simp add: d_def)
qed

lemma fresh_iff: "Sub t u <s 10 * Second \<longleftrightarrow> t - u < 10000000000"
  by (simp add: word_sless_alt ten_seconds sint_Sub minDuration_def maxDuration_def min_def max_def)

subsection \<open>The pause before an attempt\<close>

lemma preventive_iff:
  "preventive w \<longleftrightarrow> Now w - updated (limiter w) < 10000000000 \<and> remaining (limiter w) \<le> 1"
  by (simp add: preventive_def fresh_iff)

lemma pause_phase_skip:
  "first \<Longrightarrow> \<not> (Now w - updated (limiter w) < 10000000000 \<and> remaining (limiter w) \<le> 1)
     \<Longrightarrow> pause_phase ctx sleep delay first w = (Inr delay, w, [])"
  by (auto simp add: pause_phase_def Get_def fresh_iff)

lemma pause_phase_slept:
  "\<not> first \<or> (Now w - updated (limiter w) < 10000000000 \<and> remaining (limiter w) \<le> 1)
     \<Longrightarrow> sleep ctx delay w = (None, w')
     \<Longrightarrow> pause_phase ctx sleep delay first w = (Inr (delay * 2), w', [Slept delay])"
  by (auto simp add: pause_phase_def Get_def fresh_iff)

lemma pause_phase_aborted:
  "\<not> first \<or> (Now w - updated (limiter w) < 10000000000 \<and> remaining (limiter w) \<le> 1)
     \<Longrightarrow> sleep ctx delay w = (Some e, w')
     \<Longrightarrow> pause_phase ctx sleep delay first w = (Inl e, w', [Aborted delay])"
  by (auto simp add: pause_phase_def Get_def fresh_iff)

subsection \<open>One turn of the loop\<close>

lemma loop_abort:
  "pause_phase ctx sleep delay first w = (Inl e, w2, evs)
     \<Longrightarrow> call_loop ctx f sleep delay first log w = Some (Some e, w2, log @ evs)"
  by (subst call_loop.simps) simp

lemma loop_return:
  "pause_phase ctx sleep delay first w = (Inr delay', w2, evs) \<Longrightarrow> f w2 = (r, w3)
     \<Longrightarrow> \<not> errors_Is r ErrTooManyRequests
     \<Longrightarrow> call_loop ctx f sleep delay first log w = Some (r, w3, log @ evs @ [Invoked])"
  by (subst call_loop.simps) simp

lemma loop_retry:
  "pause_phase ctx sleep delay first w = (Inr delay', w2, evs) \<Longrightarrow> f w2 = (r, w3)
     \<Longrightarrow> errors_Is r ErrTooManyRequests
     \<Longrightarrow> call_loop ctx f sleep delay first log w
         = call_loop ctx f sleep delay' False (log @ evs @ [Invoked]) w3"
  by (subst call_loop.simps) simp

lemma timer_sleep_done:
  "wait ctx d w = (CtxDone e, w') \<Longrightarrow> timer_sleep wait ctx d w = (e, w')"
  by (simp add: timer_sleep_def)

lemma timer_sleep_fired:
  "wait ctx d w = (TimerFired, w') \<Longrightarrow> timer_sleep wait ctx d w = (None, w')"
  by (simp add: timer_sleep_def)

subsection \<open>Runs of the loop\<close>

lemma retry_run:
  assumes step: "\<And>j v. j < N \<Longrightarrow> J j v
                  \<Longrightarrow> \<exists>e v' v''. f v = (e, v') \<and> errors_Is e ErrTooManyRequests
                        \<and> sleep ctx (d * 2 ^ Suc j) v' = (None, v'') \<and> J (Suc j) v''"
    and final: "\<And>v. J N v \<Longrightarrow> \<exists>v'. f v = (r, v') \<and> Q v'"
    and r: "\<not> errors_Is r ErrTooManyRequests"
  shows "k \<le> N \<Longrightarrow> sleep ctx (d * 2 ^ k) w = (None, v) \<Longrightarrow> J k v
     \<Longrightarrow> \<exists>w'. call_loop ctx f sleep (d * 2 ^ k) False log w
               = Some (r, w', log @ backoff (d * 2 ^ k) (Suc (N - k))) \<and> Q w'"
proof (induction "N - k" arbitrary: k log w v)
  case 0
  then have k: "k = N" by simp
  from final [of v] 0 k obtain v2 where v2: "f v = (r, v2)" "Q v2" by auto
  have "pause_phase ctx sleep (d * 2 ^ k) False w = (Inr (d * 2 ^ k * 2), v, [Slept (d * 2 ^ k)])"
    using 0 by (simp add: pause_phase_slept)
  then have "call_loop ctx f sleep (d * 2 ^ k) False log w
      = Some (r, v2, log @ [Slept (d * 2 ^ k)] @ [Invoked])"
    using v2(1) r by (rule loop_return)
  with v2 k show ?case by simp
next
  case (Suc n)
  then have k: "k < N" "Suc k \<le> N" "n = N - Suc k" by simp_all
  from step [OF k(1) Suc.prems(3)] obtain e v' v''
    where v': "f v = (e, v')" "errors_Is e ErrTooManyRequests"
      "sleep ctx (d * 2 ^ Suc k) v' = (None, v'')" "J (Suc k) v''"
    by blast
  have dbl: "d * 2 ^ k * 2 = d * 2 ^ Suc k" by simp
  have "pause_phase ctx sleep (d * 2 ^ k) False w = (Inr (d * 2 ^ k * 2), v, [Slept (d * 2 ^ k)])"
    using Suc.prems(2) by (simp add: pause_phase_slept)
  then have "call_loop ctx f sleep (d * 2 ^ k) False log w
      = call_loop ctx f sleep (d * 2 ^ k * 2) False (log @ [Slept (d * 2 ^ k)] @ [Invoked]) v'"
    using v'(1,2) by (rule loop_retry)
  then have turn: "call_loop ctx f sleep (d * 2 ^ k) False log w
      = call_loop ctx f sleep (d * 2 ^ Suc k) False (log @ [Slept (d * 2 ^ k)] @ [Invoked]) v'"
    by (simp only: dbl)
  from Suc.hyps(1) [OF k(3) k(2) v'(3) v'(4), of "log @ [Slept (d * 2 ^ k)] @ [Invoked]"]
  obtain w' where w': "call_loop ctx f sleep (d * 2 ^ Suc k) False
        (log @ [Slept (d * 2 ^ k)] @ [Invoked]) v'
      = Some (r, w', (log @ [Slept (d * 2 ^ k)] @ [Invoked])
                @ backoff (d * 2 ^ Suc k) (Suc (N - Suc k)))" "Q w'"
    by blast
  have "Suc (N - k) = Suc (Suc (N - Suc k))"
    using k(1) by simp
  then have "backoff (d * 2 ^ k) (Suc (N - k))
      = Slept (d * 2 ^ k) # Invoked # backoff (d * 2 ^ Suc k) (Suc (N - Suc k))"
    by (simp only: backoff.simps dbl)
  with turn w' show ?case by simp
qed

lemma call_run:
  assumes first: "if preventive w
                  then \<exists>v. sleep ctx minimumRateLimitDelay w = (None, v) \<and> J 0 v
                  else J 0 w"
    and step: "\<And>k v. k < N \<Longrightarrow> J k v
                 \<Longrightarrow> \<exists>e v' v''. f v = (e, v') \<and> errors_Is e ErrTooManyRequests
                       \<and> sleep ctx (minimumRateLimitDelay
                                     * 2 ^ (if preventive w then Suc k else k)) v' = (None, v'')
                       \<and> J (Suc k) v''"
    and final: "\<And>v. J N v \<Longrightarrow> \<exists>v'. f v = (r, v') \<and> Q v'"
    and r: "\<not> errors_Is r ErrTooManyRequests"
  shows "\<exists>w'. call ctx f sleep w
           = Some (r, w', if preventive w then backoff minimumRateLimitDelay (Suc N)
                          else Invoked # backoff minimumRateLimitDelay N) \<and> Q w'"
proof (cases "preventive w")
  case True
  with first obtain v0 where v0: "sleep ctx (minimumRateLimitDelay * 2 ^ 0) w = (None, v0)" "J 0 v0"
    by auto
  have step': "\<exists>e v' v''. f v = (e, v') \<and> errors_Is e ErrTooManyRequests
      \<and> sleep ctx (minimumRateLimitDelay * 2 ^ Suc j) v' = (None, v'') \<and> J (Suc j) v''"
    if "j < N" "J j v" for j v
    using step [OF that] True by simp
  from retry_run [where J = J and N = N and d = minimumRateLimitDelay and k = 0 and w = w
      and v = v0 and log = "[]" and f = f and sleep = sleep and ctx = ctx and r = r and Q = Q,
      OF step' final r _ v0]
  obtain w' where "call_loop ctx f sleep minimumRateLimitDelay False [] w
      = Some (r, w', backoff minimumRateLimitDelay (Suc N))" "Q w'"
    by auto
  moreover have "pause_phase ctx sleep minimumRateLimitDelay True w
      = pause_phase ctx sleep minimumRateLimitDelay False w"
    using True by (simp add: pause_phase_def Get_def preventive_def)
  then have "call_loop ctx f sleep minimumRateLimitDelay True [] w
      = call_loop ctx f sleep minimumRateLimitDelay False [] w"
    by (subst (1 2) call_loop.simps) simp
  ultimately show ?thesis using True by (auto simp: call_def)
next
  case False
  with first have start: "J 0 w" by simp
  from False have skip: "pause_phase ctx sleep minimumRateLimitDelay True w
      = (Inr minimumRateLimitDelay, w, [])"
    by (intro pause_phase_skip) (simp_all add: preventive_iff)
  show ?thesis
  proof (cases N)
    case 0
    with final [of w] start obtain v' where v': "f w = (r, v')" "Q v'" by auto
    have "call_loop ctx f sleep minimumRateLimitDelay True [] w
        = Some (r, v', [] @ [] @ [Invoked])"
      using skip v'(1) r by (rule loop_return)
    with v'(2) False 0 show ?thesis
      by (auto simp: call_def)
  next
    case (Suc n)
    with step [of 0 w] start False obtain e v' v''
      where v': "f w = (e, v')" "errors_Is e ErrTooManyRequests"
        "sleep ctx (minimumRateLimitDelay * 2 ^ 0) v' = (None, v'')" "J (Suc 0) v''"
      by auto
    have step': "\<exists>e v' v''. f v = (e, v') \<and> errors_Is e ErrTooManyRequests
        \<and> sleep ctx (minimumRateLimitDelay * 2 ^ Suc j) v' = (None, v'') \<and> J (Suc (Suc j)) v''"
      if "j < n" "J (Suc j) v" for j v
      using step [of "Suc j" v] that Suc False by simp
    have final': "\<exists>v'. f v = (r, v') \<and> Q v'" if "J (Suc n) v" for v
      using final [of v] that Suc by simp
    from retry_run [where J = "\<lambda>j. J (Suc j)" and N = n and d = minimumRateLimitDelay
        and k = 0 and w = v' and v = v'' and log = "[Invoked]" and f = f and sleep = sleep
        and ctx = ctx and r = r and Q = Q, OF step' final' r _ v'(3,4)]
    obtain w' where "call_loop ctx f sleep minimumRateLimitDelay False [Invoked] v'
      = Some (r, w', [Invoked] @ backoff minimumRateLimitDelay (Suc n))" "Q w'"
      by auto
    moreover have "call_loop ctx f sleep minimumRateLimitDelay True [] w
        = call_loop ctx f sleep minimumRateLimitDelay False ([] @ [] @ [Invoked]) v'"
      using skip v'(1,2) by (rule loop_retry)
    ultimately show ?thesis using False Suc
      by (auto simp: call_def)
  qed
qed

lemma pause_phase_cases:
  obtains (skip) "pause_phase ctx sleep delay first w = (Inr delay, w, [])"
      "first" "\<not> (Now w - updated (limiter w) < 10000000000 \<and> remaining (limiter w) \<le> 1)"
  | (slept) w' where "pause_phase ctx sleep delay first w = (Inr (delay * 2), w', [Slept delay])"
      "sleep ctx delay w = (None, w')"
      "\<not> first \<or> (Now w - updated (limiter w) < 10000000000 \<and> remaining (limiter w) \<le> 1)"
  | (aborted) e w' where "pause_phase ctx sleep delay first w = (Inl e, w', [Aborted delay])"
      "sleep ctx delay w = (Some e, w')"
      "\<not> first \<or> (Now w - updated (limiter w) < 10000000000 \<and> remaining (limiter w) \<le> 1)"
proof (cases "\<not> first \<or> (Now w - updated (limiter w) < 10000000000 \<and> remaining (limiter w) \<le> 1)")
  case False
  then show ?thesis using pause_phase_skip [of first w ctx sleep delay] skip by blast
next
  case True
  obtain res w' where sl: "sleep ctx delay w = (res, w')" by (cases "sleep ctx delay w")
  show ?thesis
  proof (cases res)
    case None
    with sl True show ?thesis using pause_phase_slept [OF True, of sleep ctx delay w'] slept by blast
  next
    case (Some e)
    with sl True show ?thesis using pause_phase_aborted [OF True, of sleep ctx delay e w'] aborted by blast
  qed
qed

lemmas call_loop_induct = call_loop.raw_induct [rotated 1, consumes 1, case_names step]

lemma loop_invariant:
  "call_loop ctx f sleep delay first log w = Some res
     \<Longrightarrow> (\<forall>v. Inv v \<longrightarrow> Inv (snd (f v)))
     \<Longrightarrow> (\<forall>d v. Inv v \<longrightarrow> Inv (snd (sleep ctx d v)))
     \<Longrightarrow> Inv w \<Longrightarrow> Inv (fst (snd res))"
proof (induction rule: call_loop_induct)
  case (step self ctx f sleep delay first log w res)
  have pf: "Inv (snd (f v))" if "Inv v" for v using that step.prems by blast
  have ps: "Inv (snd (sleep ctx d v))" if "Inv v" for d v using that step.prems by blast
  have iw: "Inv w" using step.prems by blast
  have IH: "Inv (fst (snd res))"
    if "self ctx f sleep d False lg v = Some res" "Inv v" for d lg v
    using step.IH [OF that(1)] that(2) step.prems(1,2) by blast
  note eq = step.hyps
  show ?case
  proof (cases rule: pause_phase_cases [of ctx sleep delay first w])
    case skip
    obtain r w3 where fw: "f w = (r, w3)" by (cases "f w")
    with pf [of w] iw have w3: "Inv w3" by simp
    show ?thesis
    proof (cases "errors_Is r ErrTooManyRequests")
      case False
      with eq skip fw w3 show ?thesis by auto
    next
      case True
      with eq skip fw have "self ctx f sleep delay False (log @ [] @ [Invoked]) w3 = Some res"
        by simp
      from IH [OF this w3] show ?thesis .
    qed
  next
    case (slept w')
    from ps [of w delay] iw slept(2) have w': "Inv w'" by simp
    obtain r w3 where fw: "f w' = (r, w3)" by (cases "f w'")
    with pf [of w'] w' have w3: "Inv w3" by simp
    show ?thesis
    proof (cases "errors_Is r ErrTooManyRequests")
      case False
      with eq slept fw w3 show ?thesis by auto
    next
      case True
      with eq slept fw
      have "self ctx f sleep (delay * 2) False (log @ [Slept delay] @ [Invoked]) w3 = Some res"
        by simp
      from IH [OF this w3] show ?thesis .
    qed
  next
    case (aborted e w')
    from ps [of w delay] iw aborted(2) have w': "Inv w'" by simp
    with eq aborted show ?thesis by auto
  qed
qed

lemma loop_result_of_work:
  "call_loop ctx f sleep delay first log w = Some res
     \<Longrightarrow> last (snd (snd res)) = Invoked \<Longrightarrow> \<not> errors_Is (fst res) ErrTooManyRequests"
proof (induction rule: call_loop_induct)
  case (step self ctx f sleep delay first log w res)
  note eq = step.hyps
  show ?case
  proof (cases rule: pause_phase_cases [of ctx sleep delay first w])
    case skip
    obtain r w3 where fw: "f w = (r, w3)" by (cases "f w")
    show ?thesis
    proof (cases "errors_Is r ErrTooManyRequests")
      case False
      with eq skip fw show ?thesis by auto
    next
      case True
      with eq skip fw have "self ctx f sleep delay False (log @ [] @ [Invoked]) w3 = Some res"
        by simp
      from step.IH [OF this step.prems] show ?thesis .
    qed
  next
    case (slept w')
    obtain r w3 where fw: "f w' = (r, w3)" by (cases "f w'")
    show ?thesis
    proof (cases "errors_Is r ErrTooManyRequests")
      case False
      with eq slept fw show ?thesis by auto
    next
      case True
      with eq slept fw
      have "self ctx f sleep (delay * 2) False (log @ [Slept delay] @ [Invoked]) w3 = Some res"
        by simp
      from step.IH [OF this step.prems] show ?thesis .
    qed
  next
    case (aborted e w')
    with eq have "res = (Some e, w', log @ [Aborted delay])" by simp
    with step.prems show ?thesis by simp
  qed
qed

lemma loop_turn:
  "call_loop ctx f sleep delay first log w =
     (if \<not> first \<or> preventive w
      then (case sleep ctx delay w of
              (Some err, w2) \<Rightarrow> Some (Some err, w2, log @ [Aborted delay])
            | (None, w2) \<Rightarrow>
                (case f w2 of
                   (err, w3) \<Rightarrow>
                     if \<not> errors_Is err ErrTooManyRequests
                     then Some (err, w3, log @ [Slept delay, Invoked])
                     else call_loop ctx f sleep (delay * 2) False
                            (log @ [Slept delay, Invoked]) w3))
      else (case f w of
              (err, w3) \<Rightarrow>
                if \<not> errors_Is err ErrTooManyRequests
                then Some (err, w3, log @ [Invoked])
                else call_loop ctx f sleep delay False (log @ [Invoked]) w3))"
proof (cases rule: pause_phase_cases [of ctx sleep delay first w])
  case skip
  obtain r w3 where "f w = (r, w3)" by (cases "f w")
  with skip show ?thesis
    by (subst call_loop.simps) (auto simp: preventive_iff)
next
  case (slept w')
  obtain r w3 where "f w' = (r, w3)" by (cases "f w'")
  with slept show ?thesis
    by (subst call_loop.simps) (auto simp: preventive_iff)
next
  case (aborted e w')
  then show ?thesis
    by (subst call_loop.simps) (auto simp: preventive_iff)
qed

lemma loop_paced:
  "call_loop ctx f sleep delay first log w = Some res
     \<Longrightarrow> \<exists>evs. snd (snd res) = log @ evs \<and> paced (\<not> first \<or> preventive w) evs"
proof (induction rule: call_loop_induct)
  case (step self ctx f sleep delay first log w res)
  note eq = step.hyps
  show ?case
  proof (cases rule: pause_phase_cases [of ctx sleep delay first w])
    case skip
    then have due: "\<not> (\<not> first \<or> preventive w)" by (simp add: preventive_iff)
    obtain r w3 where fw: "f w = (r, w3)" by (cases "f w")
    show ?thesis
    proof (cases "errors_Is r ErrTooManyRequests")
      case False
      with eq skip fw due show ?thesis by auto
    next
      case True
      with eq skip fw have "self ctx f sleep delay False (log @ [] @ [Invoked]) w3 = Some res"
        by simp
      from step.IH [OF this] obtain evs
        where "snd (snd res) = (log @ [] @ [Invoked]) @ evs" "paced True evs" by auto
      then have "snd (snd res) = log @ (Invoked # evs)" "paced False (Invoked # evs)"
        by simp_all
      with due show ?thesis by (auto simp del: paced.simps)
    qed
  next
    case (slept w')
    then have due: "\<not> first \<or> preventive w" by (simp add: preventive_iff)
    obtain r w3 where fw: "f w' = (r, w3)" by (cases "f w'")
    show ?thesis
    proof (cases "errors_Is r ErrTooManyRequests")
      case False
      with eq slept fw due show ?thesis by auto
    next
      case True
      with eq slept fw
      have "self ctx f sleep (delay * 2) False (log @ [Slept delay] @ [Invoked]) w3 = Some res"
        by simp
      from step.IH [OF this] obtain evs
        where "snd (snd res) = (log @ [Slept delay] @ [Invoked]) @ evs" "paced True evs" by auto
      then have "snd (snd res) = log @ (Slept delay # Invoked # evs)"
        "paced True (Slept delay # Invoked # evs)"
        by simp_all
      with due show ?thesis by (auto simp del: paced.simps)
    qed
  next
    case (aborted e w')
    then have due: "\<not> first \<or> preventive w" by (simp add: preventive_iff)
    from eq aborted have "res = (Some e, w', log @ [Aborted delay])" by simp
    with due show ?thesis by auto
  qed
qed

section \<open>The record of a doubling sequence of pauses\<close>

lemma pauses_append: "pauses (xs @ ys) = pauses xs @ pauses ys"
  by (induction xs rule: pauses.induct) simp_all

lemma invocations_append: "invocations (xs @ ys) = invocations xs + invocations ys"
  by (induction xs rule: invocations.induct) simp_all

lemma invocations_backoff: "invocations (backoff d n) = n"
  by (induction n arbitrary: d) simp_all

lemma pauses_backoff: "pauses (backoff d n) = map (\<lambda>k. d * 2 ^ k) [0..<n]"
proof (induction n arbitrary: d)
  case 0
  show ?case by simp
next
  case (Suc n)
  have "[0..<Suc n] = 0 # map Suc [0..<n]"
    by (simp add: upt_conv_Cons map_Suc_upt del: upt_Suc)
  then have "map (\<lambda>k. d * 2 ^ k) [0..<Suc n] = d # map (\<lambda>k. (d * 2) * 2 ^ k) [0..<n]"
    by (simp add: comp_def mult.assoc del: upt_Suc)
  with Suc show ?case by (simp del: upt_Suc)
qed

lemma last_backoff: "last (backoff d (Suc n)) = Invoked"
proof (induction n arbitrary: d)
  case 0
  show ?case by simp
next
  case (Suc n)
  have "backoff d (Suc (Suc n)) = Slept d # Invoked # backoff (d * 2) (Suc n)" by simp
  moreover have "backoff (d * 2) (Suc n) \<noteq> []" by simp
  ultimately show ?case using Suc [of "d * 2"] by (simp del: backoff.simps)
qed

lemma sint_minimum: "sint minimumRateLimitDelay = 2500000000"
  by (simp add: minimumRateLimitDelay_def Millisecond_def)

lemma sint_delay: "k \<le> 31 \<Longrightarrow> sint (minimumRateLimitDelay * 2 ^ k) = 2500000000 * 2 ^ k"
proof -
  assume k: "k \<le> 31"
  have "(2::int) ^ k \<le> 2 ^ 31" using k by (intro power_increasing) simp_all
  then have b: "(2500000000::int) * 2 ^ k < 2 ^ 63" by simp
  have c: "- (2 ^ 63) \<le> (2500000000::int) * 2 ^ k"
    by (rule order_trans [of _ 0]) simp_all
  have "minimumRateLimitDelay * 2 ^ k = (word_of_int (2500000000 * 2 ^ k) :: Duration)"
    by (simp add: minimumRateLimitDelay_def Millisecond_def)
  moreover have "sint (word_of_int (2500000000 * 2 ^ k) :: Duration) = 2500000000 * 2 ^ k"
    using c b by (rule sint_fits)
  ultimately show ?thesis by simp
qed

lemma sum_doubling:
  "n \<le> 32 \<Longrightarrow> sum_list (map sint (map (\<lambda>k. minimumRateLimitDelay * 2 ^ k) [0..<n]))
     = (2 ^ n - 1) * 2500000000"
proof (induction n)
  case 0
  show ?case by simp
next
  case (Suc n)
  then have "sint (minimumRateLimitDelay * 2 ^ n) = 2500000000 * 2 ^ n"
    by (intro sint_delay) simp
  with Suc show ?case by (simp add: algebra_simps)
qed

lemma sints_doubling:
  "n \<le> 32 \<Longrightarrow> map sint (map (\<lambda>k. minimumRateLimitDelay * 2 ^ k) [0..<n])
     = map (\<lambda>k. sint minimumRateLimitDelay * 2 ^ k) [0..<n]"
  by (simp add: sint_delay sint_minimum)

section \<open>Runs of the tests\<close>

lemma test_run:
  assumes r: "\<not> errors_Is r ErrTooManyRequests"
  shows "call () test_request test_sleep
           (test_world t u rem when now (replicate N (Some ErrTooManyRequests) @ [r]))
         = Some (r, test_world t u rem when now [],
                 if now - when < 10000000000 \<and> rem \<le> 1
                 then backoff minimumRateLimitDelay (Suc N)
                 else Invoked # backoff minimumRateLimitDelay N)"
proof -
  let ?w = "test_world t u rem when now (replicate N (Some ErrTooManyRequests) @ [r])"
  define J where "J k v \<longleftrightarrow>
    v = test_world t u rem when now (replicate (N - k) (Some ErrTooManyRequests) @ [r])" for k v
  define Q where "Q v \<longleftrightarrow> v = test_world t u rem when now []" for v
  have first: "if preventive ?w
      then \<exists>v. test_sleep () minimumRateLimitDelay ?w = (None, v) \<and> J 0 v
      else J 0 ?w"
    by (simp add: J_def test_sleep_def)
  have step: "\<exists>e v' v''. test_request v = (e, v') \<and> errors_Is e ErrTooManyRequests
      \<and> test_sleep () (minimumRateLimitDelay * 2 ^ (if preventive ?w then Suc k else k)) v'
          = (None, v'')
      \<and> J (Suc k) v''"
    if "k < N" "J k v" for k v
  proof -
    from that(1) have "N - k = Suc (N - Suc k)" by simp
    with that(2) show ?thesis
      by (simp add: J_def test_request_def test_sleep_def test_world_def)
  qed
  have final: "\<exists>v'. test_request v = (r, v') \<and> Q v'" if "J N v" for v
    using that by (simp add: J_def Q_def test_request_def test_world_def)
  from call_run [where J = J and N = N and Q = Q and w = ?w and f = test_request
      and sleep = test_sleep and ctx = "()" and r = r, OF first step final r]
  show ?thesis
    by (auto simp: Q_def preventive_iff Now_def test_world_def)
qed

section \<open>Update and Get\<close>

text \<open>
  C6. \<^verbatim>\<open>Update\<close> overwrites the three counters with its arguments, whatever integers
  they are, and sets the timestamp to the current time; it changes nothing else. A
  \<^verbatim>\<open>Get\<close> after it returns the tuple just written, with the time of the update, also
  when the clock has moved on and the rest of the world has changed in between.
\<close>

theorem Update_then_Get:
  "limiter (Update t u r w) = \<lparr>total = t, used = u, remaining = r, updated = Now w\<rparr>
   \<and> clock (Update t u r w) = clock w
   \<and> ext (Update t u r w) = ext w
   \<and> fst (Get (Update t u r w)) = (t, u, r, Now w)
   \<and> fst (Get ((Update t u r w)\<lparr>clock := later, ext := x\<rparr>)) = (t, u, r, Now w)
   \<and> snd (Get (Update t u r w)) = Update t u r w"
  by (simp add: Update_def Get_def Now_def)

section \<open>Cancellation\<close>

text \<open>
  C4. Take any turn of the loop of \<^verbatim>\<open>Call\<close> in which a pause is due, and let the
  context wake the caller during that pause, \<^verbatim>\<open>ctx.Err()\<close> being \<open>e\<close>. Then the call
  returns \<open>e\<close> in the world the wait left; the pause phase yields no delay for a next
  pause; and the record grows by the interrupted pause only, so the work has been invoked
  as often as before the pause began.
\<close>

theorem interrupted_pause_returns:
  assumes due: "\<not> first \<or> preventive w"
    and woken: "wait ctx delay w = (CtxDone (Some e), w')"
  shows "pause_phase ctx (timer_sleep wait) delay first w = (Inl e, w', [Aborted delay])
     \<and> call_loop ctx f (timer_sleep wait) delay first log w
         = Some (Some e, w', log @ [Aborted delay])
     \<and> invocations (log @ [Aborted delay]) = invocations log
     \<and> pauses (log @ [Aborted delay]) = pauses log"
proof -
  from woken have "timer_sleep wait ctx delay w = (Some e, w')"
    by (rule timer_sleep_done)
  with due have p: "pause_phase ctx (timer_sleep wait) delay first w = (Inl e, w', [Aborted delay])"
    by (intro pause_phase_aborted) (simp_all add: preventive_iff)
  then have "call_loop ctx f (timer_sleep wait) delay first log w
      = Some (Some e, w', log @ [Aborted delay])"
    by (rule loop_abort)
  with p show ?thesis by (simp add: invocations_append pauses_append)
qed

text \<open>
  A fresh snapshot with nothing remaining and a deadline one second away: the
  preventive pause of \<^verbatim>\<open>Call\<close> is interrupted and the work is never invoked.
\<close>

theorem interrupted_pause_returns_witness:
  "preventive (test_world 10 10 0 0 0 [None])
   \<and> deadline_wait 1000000000 minimumRateLimitDelay (test_world 10 10 0 0 0 [None])
       = (CtxDone (Some DeadlineExceeded), test_world 10 10 0 0 1000000000 [None])
   \<and> Call deadline_wait 1000000000 test_request (test_world 10 10 0 0 0 [None])
       = Some (Some DeadlineExceeded, test_world 10 10 0 0 1000000000 [None],
               [Aborted minimumRateLimitDelay])
   \<and> invocations [Aborted minimumRateLimitDelay] = 0"
proof -
  let ?w = "test_world 10 10 0 0 0 [None]"
  have p: "preventive ?w"
    by (simp add: preventive_iff test_world_def Now_def)
  have d: "deadline_wait 1000000000 minimumRateLimitDelay ?w
      = (CtxDone (Some DeadlineExceeded), test_world 10 10 0 0 1000000000 [None])"
    by (simp add: deadline_wait_def test_world_def sint_minimum)
  from interrupted_pause_returns [of True ?w deadline_wait 1000000000 minimumRateLimitDelay
      DeadlineExceeded "test_world 10 10 0 0 1000000000 [None]" test_request "[]"] p d
  show ?thesis by (simp add: Call_def call_def)
qed

section \<open>A work that does not fail on the quota\<close>

text \<open>
  C5. Let the first invocation of the work return a result that is not a quota failure.
  When the snapshot leaves more than one request, or is ten seconds old or older,
  \<^verbatim>\<open>call\<close> invokes the work at once and returns, having slept for no time. When the
  snapshot is fresh and leaves at most one request, \<^verbatim>\<open>call\<close> pauses once, for
  \<open>minimumRateLimitDelay\<close>, and then makes its single attempt.
\<close>

theorem single_attempt_delay:
  assumes r: "\<not> errors_Is r ErrTooManyRequests"
  shows "((1 < remaining (limiter w) \<or> sint (10 * Second) \<le> Now w - updated (limiter w))
            \<and> f w = (r, w')
          \<longrightarrow> call ctx f sleep w = Some (r, w', [Invoked]) \<and> total_slept [Invoked] = 0)
     \<and> (Now w - updated (limiter w) < sint (10 * Second) \<and> remaining (limiter w) \<le> 1
            \<and> sleep ctx minimumRateLimitDelay w = (None, w1) \<and> f w1 = (r, w')
          \<longrightarrow> call ctx f sleep w = Some (r, w', [Slept minimumRateLimitDelay, Invoked])
              \<and> total_slept [Slept minimumRateLimitDelay, Invoked] = sint minimumRateLimitDelay)"
proof -
  have "call ctx f sleep w = Some (r, w', [Invoked])"
    if c: "1 < remaining (limiter w) \<or> sint (10 * Second) \<le> Now w - updated (limiter w)"
      and fw: "f w = (r, w')"
  proof -
    from c have "pause_phase ctx sleep minimumRateLimitDelay True w
        = (Inr minimumRateLimitDelay, w, [])"
      by (intro pause_phase_skip) (auto simp: ten_seconds)
    then have "call_loop ctx f sleep minimumRateLimitDelay True [] w
        = Some (r, w', [] @ [] @ [Invoked])"
      using fw r by (rule loop_return)
    then show ?thesis by (simp add: call_def)
  qed
  moreover have "call ctx f sleep w = Some (r, w', [Slept minimumRateLimitDelay, Invoked])"
    if c: "Now w - updated (limiter w) < sint (10 * Second)" "remaining (limiter w) \<le> 1"
      and sl: "sleep ctx minimumRateLimitDelay w = (None, w1)" and fw: "f w1 = (r, w')"
  proof -
    from c sl have "pause_phase ctx sleep minimumRateLimitDelay True w
        = (Inr (minimumRateLimitDelay * 2), w1, [Slept minimumRateLimitDelay])"
      by (intro pause_phase_slept) (auto simp: ten_seconds)
    then have "call_loop ctx f sleep minimumRateLimitDelay True [] w
        = Some (r, w', [] @ [Slept minimumRateLimitDelay] @ [Invoked])"
      using fw r by (rule loop_return)
    then show ?thesis by (simp add: call_def)
  qed
  ultimately show ?thesis by (simp add: total_slept_def)
qed

text \<open>
  Three rows of \<^verbatim>\<open>TestRateLimit_Call\<close>: fresh data with requests remaining, stale
  data a minute old with none remaining, and fresh data with none remaining and an
  error that is not a quota failure.
\<close>

theorem single_attempt_delay_witness:
  "summary (call () test_request test_sleep (test_world 10 6 4 0 0 [None])) = Some (None, 1, 0)
   \<and> summary (call () test_request test_sleep (test_world 10 10 0 0 60000000000 [None]))
       = Some (None, 1, 0)
   \<and> summary (call () test_request test_sleep
         (test_world 10 10 0 0 0 [Some (PlainError ''unexpected EOF'')]))
       = Some (Some (PlainError ''unexpected EOF''), 1, 2500000000)"
proof -
  have r: "\<not> errors_Is None ErrTooManyRequests"
    and r': "\<not> errors_Is (Some (PlainError ''unexpected EOF'')) ErrTooManyRequests"
    by simp_all
  have a: "test_request (test_world t u n x y [e]) = (e, test_world t u n x y [])" for t u n x y e
    by (simp add: test_request_def test_world_def)
  have "call () test_request test_sleep (test_world 10 6 4 0 0 [None])
      = Some (None, test_world 10 6 4 0 0 [], [Invoked])"
    using single_attempt_delay [OF r, of "test_world 10 6 4 0 0 [None]" test_request
        "test_world 10 6 4 0 0 []" "()" test_sleep] a
    by (simp add: test_world_def)
  moreover have "call () test_request test_sleep (test_world 10 10 0 0 60000000000 [None])
      = Some (None, test_world 10 10 0 0 60000000000 [], [Invoked])"
    using single_attempt_delay [OF r, of "test_world 10 10 0 0 60000000000 [None]" test_request
        "test_world 10 10 0 0 60000000000 []" "()" test_sleep] a
    by (simp add: test_world_def Now_def ten_seconds)
  moreover have "call () test_request test_sleep
        (test_world 10 10 0 0 0 [Some (PlainError ''unexpected EOF'')])
      = Some (Some (PlainError ''unexpected EOF''), test_world 10 10 0 0 0 [],
              [Slept minimumRateLimitDelay, Invoked])"
    using single_attempt_delay [OF r',
        of "test_world 10 10 0 0 0 [Some (PlainError ''unexpected EOF'')]" test_request
        "test_world 10 10 0 0 0 []" "()" test_sleep
        "test_world 10 10 0 0 0 [Some (PlainError ''unexpected EOF'')]"] a
    by (simp add: test_world_def Now_def ten_seconds test_sleep_def)
  ultimately show ?thesis
    by (simp add: summary_def total_slept_def sint_minimum)
qed

section \<open>The edge of the freshness window\<close>

text \<open>
  C10. A snapshot counts as fresh exactly when less than ten seconds have passed since
  it was taken. At ten seconds or more the first attempt is not delayed, whatever
  remains; below ten seconds, with at most one request remaining, it is.
\<close>

theorem freshness_boundary:
  "(Sub now when <s 10 * Second \<longleftrightarrow> now - when < 10 * 1000000000)
   \<and> (10 * 1000000000 \<le> Now w - updated (limiter w)
      \<longrightarrow> pause_phase ctx sleep delay True w = (Inr delay, w, []))
   \<and> (Now w - updated (limiter w) < 10 * 1000000000 \<and> remaining (limiter w) \<le> 1
      \<longrightarrow> snd (snd (pause_phase ctx sleep delay True w)) \<noteq> [])"
proof -
  have "pause_phase ctx sleep delay True w = (Inr delay, w, [])"
    if "10 * 1000000000 \<le> Now w - updated (limiter w)"
    using that by (intro pause_phase_skip) simp_all
  moreover have "snd (snd (pause_phase ctx sleep delay True w)) \<noteq> []"
    if "Now w - updated (limiter w) < 10 * 1000000000 \<and> remaining (limiter w) \<le> 1"
    using that by (cases rule: pause_phase_cases [of ctx sleep delay True w]) auto
  ultimately show ?thesis by (simp add: fresh_iff)
qed

text \<open>
  A snapshot with nothing remaining, taken exactly ten seconds ago, and one taken a
  nanosecond later.
\<close>

theorem freshness_boundary_witness:
  "pause_phase () test_sleep minimumRateLimitDelay True (test_world 10 10 0 0 10000000000 [])
     = (Inr minimumRateLimitDelay, test_world 10 10 0 0 10000000000 [], [])
   \<and> snd (snd (pause_phase () test_sleep minimumRateLimitDelay True
        (test_world 10 10 0 1 10000000000 []))) \<noteq> []"
  using freshness_boundary [of _ _ "test_world 10 10 0 0 10000000000 []" "()" test_sleep
      minimumRateLimitDelay]
    freshness_boundary [of _ _ "test_world 10 10 0 1 10000000000 []" "()" test_sleep
      minimumRateLimitDelay]
  by (simp add: test_world_def Now_def)

section \<open>A rate limiter that was never updated\<close>

text \<open>
  C9. Let the rate limiter be the zero value, and the clock read a time at least ten
  seconds after the zero time, as every real clock does. The snapshot leaves no request,
  yet it is not fresh: the first turn of \<^verbatim>\<open>call\<close>, and so of \<^verbatim>\<open>Call\<close>, does not
  pause and invokes the work in the world as it is.
\<close>

theorem zero_value_no_pause:
  assumes zero: "limiter w = zero_RateLimit"
    and clock: "zero_Time + sint (10 * Second) \<le> Now w"
  shows "remaining (limiter w) = 0
     \<and> \<not> preventive w
     \<and> pause_phase ctx sleep minimumRateLimitDelay True w = (Inr minimumRateLimitDelay, w, [])
     \<and> call ctx f sleep w
         = (case f w of
              (err, w3) \<Rightarrow>
                if \<not> errors_Is err ErrTooManyRequests
                then Some (err, w3, [Invoked])
                else call_loop ctx f sleep minimumRateLimitDelay False [Invoked] w3)"
proof -
  from zero clock have old: "\<not> Now w - updated (limiter w) < 10000000000"
    by (simp add: zero_RateLimit_def ten_seconds)
  then have p: "pause_phase ctx sleep minimumRateLimitDelay True w
      = (Inr minimumRateLimitDelay, w, [])"
    by (intro pause_phase_skip) simp_all
  then have "call ctx f sleep w
         = (case f w of
              (err, w3) \<Rightarrow>
                if \<not> errors_Is err ErrTooManyRequests
                then Some (err, w3, [Invoked])
                else call_loop ctx f sleep minimumRateLimitDelay False [Invoked] w3)"
    unfolding call_def by (subst call_loop.simps) (cases "f w", simp)
  with p old zero show ?thesis by (simp add: preventive_iff zero_RateLimit_def)
qed

text \<open>A call on a new rate limiter, at the first nanosecond of 2026.\<close>

theorem zero_value_no_pause_witness:
  "Call deadline_wait 1767225600000000001 test_request
       \<lparr>limiter = zero_RateLimit, clock = 1767225600000000000, ext = [None]\<rparr>
     = Some (None, \<lparr>limiter = zero_RateLimit, clock = 1767225600000000000, ext = []\<rparr>, [Invoked])"
  using zero_value_no_pause [of "\<lparr>limiter = zero_RateLimit, clock = 1767225600000000000,
      ext = [None]\<rparr>" "1767225600000000001" "timer_sleep deadline_wait" test_request]
  by (simp add: Call_def Now_def zero_Time_def ten_seconds test_request_def)

section \<open>What a call leaves alone\<close>

text \<open>
  C7. \<^verbatim>\<open>Get\<close> returns the world it was given. \<^verbatim>\<open>call\<close> itself never writes the
  snapshot: whatever holds of the snapshot at the start, and is kept by the work and by
  \<^verbatim>\<open>sleep\<close>, holds when the call returns; so with callbacks that leave the four fields
  alone the snapshot at the end is the one at the start, however many turns the loop
  took. \<^verbatim>\<open>Call\<close> is \<^verbatim>\<open>call\<close> with the \<^verbatim>\<open>sleep\<close> it builds from the timer, so
  this holds of it as well.
\<close>

theorem snapshot_only_changed_by_callbacks:
  assumes work: "\<And>v. P (limiter v) \<Longrightarrow> P (limiter (snd (f v)))"
    and sleeps: "\<And>d v. P (limiter v) \<Longrightarrow> P (limiter (snd (sleep ctx d v)))"
    and start: "P (limiter w)"
  shows "snd (Get w) = w
     \<and> (\<forall>r w' log. call ctx f sleep w = Some (r, w', log) \<longrightarrow> P (limiter w'))"
proof -
  have "P (limiter w')" if "call ctx f sleep w = Some (r, w', log)" for r w' log
    using loop_invariant [of ctx f sleep minimumRateLimitDelay True "[]" w "(r, w', log)"
        "\<lambda>v. P (limiter v)"] that work sleeps start
    by (simp add: call_def)
  then show ?thesis by (simp add: Get_def)
qed

text \<open>
  The run with two quota failures: \<^verbatim>\<open>Get\<close> was called three times and \<^verbatim>\<open>sleep\<close>
  as often, and the snapshot is as it was.
\<close>

theorem snapshot_only_changed_by_callbacks_witness:
  "\<exists>r w' log. call () test_request test_sleep
       (test_world 10 10 0 0 0 [Some ErrTooManyRequests, Some ErrTooManyRequests, None])
     = Some (r, w', log)
     \<and> invocations log = 3
     \<and> limiter w' = \<lparr>total = 10, used = 10, remaining = 0, updated = 0\<rparr>"
proof -
  let ?w = "test_world 10 10 0 0 0 [Some ErrTooManyRequests, Some ErrTooManyRequests, None]"
  let ?P = "\<lambda>l. l = \<lparr>total = 10, used = 10, remaining = 0, updated = 0\<rparr>"
  have "replicate 2 (Some ErrTooManyRequests) @ [None]
      = [Some ErrTooManyRequests, Some ErrTooManyRequests, None]"
    by (simp add: numeral_2_eq_2)
  with test_run [of None 10 10 0 0 0 2]
  have run: "call () test_request test_sleep ?w
      = Some (None, test_world 10 10 0 0 0 [], backoff minimumRateLimitDelay (Suc 2))"
    by simp
  have "snd (Get ?w) = ?w
      \<and> (\<forall>r w' log. call () test_request test_sleep ?w = Some (r, w', log) \<longrightarrow> ?P (limiter w'))"
  proof (rule snapshot_only_changed_by_callbacks [where P = ?P])
    show "?P (limiter (snd (test_request v)))" if "?P (limiter v)" for v
      using that by (simp add: test_request_def split: list.splits)
    show "?P (limiter (snd (test_sleep () d v)))" if "?P (limiter v)" for d v
      using that by (simp add: test_sleep_def)
    show "?P (limiter ?w)" by (simp add: test_world_def)
  qed
  with run have "?P (limiter (test_world 10 10 0 0 0 []))" by blast
  with run show ?thesis by (simp add: invocations_backoff del: backoff.simps)
qed

section \<open>When the loop pauses\<close>

text \<open>
  C2. Take any turn of the loop. When the turn is a retry (\<open>first\<close> is false), or the
  snapshot was taken less than ten seconds ago and leaves at most one request,
  \<^verbatim>\<open>sleep\<close> is called first, with the current delay and in the world as it is: an
  error from it ends the call, and otherwise the work is invoked in the world the pause
  left, the next pause being twice as long. When neither holds, the work is invoked at
  once, in the world as it is. The turn after a quota failure is a retry. So in the record
  of a call that returns every attempt but the first follows a completed pause, and the
  first does exactly when the snapshot at the start was that fresh and that low.
\<close>

theorem pause_condition:
  "call_loop ctx f sleep delay first log w =
     (if \<not> first \<or> (Now w - updated (limiter w) < sint (10 * Second)
                        \<and> remaining (limiter w) \<le> 1)
      then (case sleep ctx delay w of
              (Some err, w2) \<Rightarrow> Some (Some err, w2, log @ [Aborted delay])
            | (None, w2) \<Rightarrow>
                (case f w2 of
                   (err, w3) \<Rightarrow>
                     if \<not> errors_Is err ErrTooManyRequests
                     then Some (err, w3, log @ [Slept delay, Invoked])
                     else call_loop ctx f sleep (delay * 2) False
                            (log @ [Slept delay, Invoked]) w3))
      else (case f w of
              (err, w3) \<Rightarrow>
                if \<not> errors_Is err ErrTooManyRequests
                then Some (err, w3, log @ [Invoked])
                else call_loop ctx f sleep delay False (log @ [Invoked]) w3))
   \<and> (call ctx f sleep w = Some (r, w', log')
      \<longrightarrow> paced (Now w - updated (limiter w) < sint (10 * Second)
                  \<and> remaining (limiter w) \<le> 1) log')"
proof -
  have c: "preventive w \<longleftrightarrow>
      Now w - updated (limiter w) < sint (10 * Second) \<and> remaining (limiter w) \<le> 1" for w :: "'a world"
    by (simp add: preventive_iff ten_seconds)
  have "paced (preventive w) log'" if "call ctx f sleep w = Some (r, w', log')"
    using loop_paced [of ctx f sleep minimumRateLimitDelay True "[]" w "(r, w', log')"] that
    by (simp add: call_def)
  then show ?thesis
    unfolding c [symmetric] using loop_turn [of ctx f sleep delay first log w] by blast
qed

text \<open>
  With a runtime in which a completed pause moves the clock: a fresh snapshot that
  leaves exactly one request makes the first attempt wait for the minimum; one that
  leaves two does not; a retry waits whatever the snapshot says.
\<close>

theorem pause_condition_witness:
  "call_loop 1000000000000 test_request (timer_sleep deadline_wait) minimumRateLimitDelay True []
       (test_world 10 9 1 0 0 [None])
     = Some (None, test_world 10 9 1 0 2500000000 [], [Slept minimumRateLimitDelay, Invoked])
   \<and> call_loop 1000000000000 test_request (timer_sleep deadline_wait) minimumRateLimitDelay True []
       (test_world 10 8 2 0 0 [None])
     = Some (None, test_world 10 8 2 0 0 [], [Invoked])
   \<and> call_loop 1000000000000 test_request (timer_sleep deadline_wait) minimumRateLimitDelay False
       [Invoked] (test_world 10 8 2 0 0 [None])
     = Some (None, test_world 10 8 2 0 2500000000 [],
             [Invoked, Slept minimumRateLimitDelay, Invoked])"
  using pause_condition [of 1000000000000 test_request "timer_sleep deadline_wait"
      minimumRateLimitDelay True "[]" "test_world 10 9 1 0 0 [None]"]
    pause_condition [of 1000000000000 test_request "timer_sleep deadline_wait"
      minimumRateLimitDelay True "[]" "test_world 10 8 2 0 0 [None]"]
    pause_condition [of 1000000000000 test_request "timer_sleep deadline_wait"
      minimumRateLimitDelay False "[Invoked]" "test_world 10 8 2 0 0 [None]"]
  by (simp add: test_world_def Now_def ten_seconds timer_sleep_def deadline_wait_def
      test_request_def sint_minimum)

section \<open>Errors that wrap the sentinel\<close>

text \<open>
  C8. Let \<open>e\<close> match \<^verbatim>\<open>ErrTooManyRequests\<close> under \<^verbatim>\<open>errors.Is\<close>: the sentinel
  itself, an error that wraps a matching error, alone or among others, or one whose own
  \<^verbatim>\<open>Is\<close> method accepts the sentinel. When the work returns \<open>e\<close> in some turn, the call
  does not return it: it pauses, and unless that pause is interrupted it invokes the work
  again, returning the new result when that is no quota failure and going round once
  more when it is. And no result that \<^verbatim>\<open>call\<close> returns from the work matches the
  sentinel, so none is \<open>e\<close>.
\<close>

theorem wrapped_quota_error_retried:
  assumes match: "unwrap_is e ErrTooManyRequests"
  shows "(pause_phase ctx sleep delay first w = (Inr d', w2, evs) \<and> f w2 = (Some e, w3)
          \<longrightarrow> call_loop ctx f sleep delay first log w
              = (case sleep ctx d' w3 of
                   (Some err, w4) \<Rightarrow> Some (Some err, w4, log @ evs @ [Invoked, Aborted d'])
                 | (None, w4) \<Rightarrow>
                     (case f w4 of
                        (r, w5) \<Rightarrow>
                          if \<not> errors_Is r ErrTooManyRequests
                          then Some (r, w5, log @ evs @ [Invoked, Slept d', Invoked])
                          else call_loop ctx f sleep (d' * 2) False
                                 (log @ evs @ [Invoked, Slept d', Invoked]) w5)))
     \<and> (call ctx f sleep w = Some (r', w', log') \<and> last log' = Invoked
          \<longrightarrow> \<not> errors_Is r' ErrTooManyRequests \<and> r' \<noteq> Some e)
     \<and> errors_Is (Some e) ErrTooManyRequests
     \<and> errors_Is (Some (WrapError m e)) ErrTooManyRequests
     \<and> errors_Is (Some (JoinError (xs @ e # ys))) ErrTooManyRequests
     \<and> errors_Is (Some (CustomError m accepts (xs @ e # ys))) ErrTooManyRequests
     \<and> errors_Is (Some (CustomError m (xs @ ErrTooManyRequests # ys) es)) ErrTooManyRequests"
proof -
  have "call_loop ctx f sleep delay first log w
      = (case sleep ctx d' w3 of
           (Some err, w4) \<Rightarrow> Some (Some err, w4, log @ evs @ [Invoked, Aborted d'])
         | (None, w4) \<Rightarrow>
             (case f w4 of
                (r, w5) \<Rightarrow>
                  if \<not> errors_Is r ErrTooManyRequests
                  then Some (r, w5, log @ evs @ [Invoked, Slept d', Invoked])
                  else call_loop ctx f sleep (d' * 2) False
                         (log @ evs @ [Invoked, Slept d', Invoked]) w5))"
    if p: "pause_phase ctx sleep delay first w = (Inr d', w2, evs)" and fw: "f w2 = (Some e, w3)"
  proof -
    have "call_loop ctx f sleep delay first log w
        = call_loop ctx f sleep d' False (log @ evs @ [Invoked]) w3"
      using p fw by (rule loop_retry) (simp add: match)
    also have "\<dots> = (case sleep ctx d' w3 of
           (Some err, w4) \<Rightarrow> Some (Some err, w4, log @ evs @ [Invoked, Aborted d'])
         | (None, w4) \<Rightarrow>
             (case f w4 of
                (r, w5) \<Rightarrow>
                  if \<not> errors_Is r ErrTooManyRequests
                  then Some (r, w5, log @ evs @ [Invoked, Slept d', Invoked])
                  else call_loop ctx f sleep (d' * 2) False
                         (log @ evs @ [Invoked, Slept d', Invoked]) w5))"
    proof -
      obtain s w4 where sl: "sleep ctx d' w3 = (s, w4)" by (cases "sleep ctx d' w3")
      obtain r w5 where fw4: "f w4 = (r, w5)" by (cases "f w4")
      show ?thesis
        by (subst loop_turn) (cases s; simp add: sl fw4)
    qed
    finally show ?thesis .
  qed
  moreover have "\<not> errors_Is r' ErrTooManyRequests \<and> r' \<noteq> Some e"
    if "call ctx f sleep w = Some (r', w', log')" "last log' = Invoked"
    using loop_result_of_work [of ctx f sleep minimumRateLimitDelay True "[]" w "(r', w', log')"]
      that match
    by (auto simp: call_def)
  ultimately show ?thesis using match by simp
qed

text \<open>
  A work whose first result wraps, two levels down and next to another error, the
  sentinel: it is invoked a second time, after a pause of the minimum.
\<close>

theorem wrapped_quota_error_retried_witness:
  "call () test_request test_sleep
       (test_world 10 6 4 0 0
          [Some (WrapError ''a'' (JoinError [PlainError ''x'', WrapError ''b'' ErrTooManyRequests])),
           None])
     = Some (None, test_world 10 6 4 0 0 [], [Invoked, Slept minimumRateLimitDelay, Invoked])"
proof -
  let ?e = "WrapError ''a'' (JoinError [PlainError ''x'', WrapError ''b'' ErrTooManyRequests])"
  let ?w = "test_world 10 6 4 0 0 [Some ?e, None]"
  have 1: "pause_phase () test_sleep minimumRateLimitDelay True ?w
      = (Inr minimumRateLimitDelay, ?w, [])"
    by (rule pause_phase_skip) (simp_all add: test_world_def)
  have 2: "test_request ?w = (Some ?e, test_world 10 6 4 0 0 [None])"
    by (simp add: test_request_def test_world_def)
  have 3: "unwrap_is ?e ErrTooManyRequests" by simp
  have 4: "test_request (test_world 10 6 4 0 0 [None]) = (None, test_world 10 6 4 0 0 [])"
    by (simp add: test_request_def test_world_def)
  from wrapped_quota_error_retried [OF 3, of "()" test_sleep minimumRateLimitDelay True ?w
      minimumRateLimitDelay ?w "[]" test_request "test_world 10 6 4 0 0 [None]" "[]"] 1 2 4
  show ?thesis by (simp add: call_def test_sleep_def)
qed

section \<open>Exponential backoff\<close>

lemma total_slept_overflow:
  "total_slept (Invoked # backoff minimumRateLimitDelay 33) = 3028092403790448384"
  by code_simp

lemma last_pause_overflow:
  "sint (last (pauses (Invoked # backoff minimumRateLimitDelay 33))) = - 7709325833709551616"
  by code_simp

text \<open>
  C1 (as amended). Let the work fail with \<^verbatim>\<open>ErrTooManyRequests\<close> on each of its first
  \<open>N\<close> invocations and return something else, \<open>r\<close>, on invocation \<open>N + 1\<close>, and let
  each pause the call asks for complete; \<open>J k\<close> holds of the worlds in which the work
  is invoked for the \<open>(k + 1)\<close>-th time. Then \<^verbatim>\<open>call\<close> returns \<open>r\<close> after \<open>N + 1\<close>
  invocations. When the first snapshot asked for no preventive pause and \<open>N \<le> 32\<close>,
  there are \<open>N\<close> pauses, of \<open>minimumRateLimitDelay * 2 ^ k\<close> nanoseconds for
  \<open>k = 0, ..., N - 1\<close>, which add up to \<open>(2 ^ N - 1) * minimumRateLimitDelay\<close>. When it
  did ask for one and \<open>N \<le> 31\<close>, there are \<open>N + 1\<close> pauses, doubling likewise from the
  minimum, which add up to \<open>(2 ^ (N + 1) - 1) * minimumRateLimitDelay\<close>.
\<close>

theorem backoff_after_quota_failures:
  assumes first: "if preventive w
                  then \<exists>v. sleep ctx minimumRateLimitDelay w = (None, v) \<and> J 0 v
                  else J 0 w"
    and step: "\<And>k v. k < N \<Longrightarrow> J k v
                 \<Longrightarrow> \<exists>v' v''. f v = (Some ErrTooManyRequests, v')
                       \<and> sleep ctx (minimumRateLimitDelay
                                     * 2 ^ (if preventive w then Suc k else k)) v' = (None, v'')
                       \<and> J (Suc k) v''"
    and final: "\<And>v. J N v \<Longrightarrow> \<exists>v'. f v = (r, v')"
    and r: "\<not> errors_Is r ErrTooManyRequests"
  shows "\<exists>w' log. call ctx f sleep w = Some (r, w', log) \<and> invocations log = Suc N
           \<and> (\<not> preventive w \<and> N \<le> 32 \<longrightarrow>
                map sint (pauses log) = map (\<lambda>k. sint minimumRateLimitDelay * 2 ^ k) [0..<N]
                \<and> total_slept log = (2 ^ N - 1) * sint minimumRateLimitDelay)
           \<and> (preventive w \<and> N \<le> 31 \<longrightarrow>
                map sint (pauses log) = map (\<lambda>k. sint minimumRateLimitDelay * 2 ^ k) [0..<Suc N]
                \<and> total_slept log = (2 ^ Suc N - 1) * sint minimumRateLimitDelay)"
proof -
  have step': "\<exists>e v' v''. f v = (e, v') \<and> errors_Is e ErrTooManyRequests
      \<and> sleep ctx (minimumRateLimitDelay * 2 ^ (if preventive w then Suc k else k)) v'
          = (None, v'')
      \<and> J (Suc k) v''"
    if "k < N" "J k v" for k v
  proof -
    from step [OF that] obtain v' v'' where "f v = (Some ErrTooManyRequests, v')"
      "sleep ctx (minimumRateLimitDelay * 2 ^ (if preventive w then Suc k else k)) v'
         = (None, v'')" "J (Suc k) v''"
      by blast
    moreover have "errors_Is (Some ErrTooManyRequests) ErrTooManyRequests" by simp
    ultimately show ?thesis by blast
  qed
  have final': "\<exists>v'. f v = (r, v') \<and> True" if "J N v" for v
    using final [OF that] by simp
  from call_run [where J = J and N = N and Q = "\<lambda>_. True" and w = w and f = f and sleep = sleep
      and ctx = ctx and r = r, OF first step' final' r]
  obtain w' where run: "call ctx f sleep w
      = Some (r, w', if preventive w then backoff minimumRateLimitDelay (Suc N)
                     else Invoked # backoff minimumRateLimitDelay N)"
    by blast
  show ?thesis
  proof (cases "preventive w")
    case True
    have "map sint (pauses (backoff minimumRateLimitDelay (Suc N)))
          = map (\<lambda>k. sint minimumRateLimitDelay * 2 ^ k) [0..<Suc N]
        \<and> total_slept (backoff minimumRateLimitDelay (Suc N))
          = (2 ^ Suc N - 1) * sint minimumRateLimitDelay" if "N \<le> 31"
    proof -
      from that have n: "Suc N \<le> 32" by simp
      show ?thesis
        unfolding total_slept_def pauses_backoff sint_minimum
        using sints_doubling [OF n] sum_doubling [OF n] by (simp only: sint_minimum)
    qed
    with run True show ?thesis
      by (simp add: invocations_backoff del: backoff.simps upt_Suc power_Suc)
  next
    case False
    have "map sint (pauses (Invoked # backoff minimumRateLimitDelay N))
          = map (\<lambda>k. sint minimumRateLimitDelay * 2 ^ k) [0..<N]
        \<and> total_slept (Invoked # backoff minimumRateLimitDelay N)
          = (2 ^ N - 1) * sint minimumRateLimitDelay" if n: "N \<le> 32"
      unfolding total_slept_def pauses.simps pauses_backoff sint_minimum
      using sints_doubling [OF n] sum_doubling [OF n] by (simp only: sint_minimum)
    with run False show ?thesis
      by (simp add: invocations_backoff del: backoff.simps upt_Suc power_Suc)
  qed
qed

text \<open>
  The last row of \<^verbatim>\<open>TestRateLimit_Call\<close>: a fresh snapshot with nothing remaining,
  two failures, then success; three pauses of seven times the minimum in all.
\<close>

theorem backoff_after_quota_failures_witness:
  "preventive (test_world 10 10 0 0 0 [Some ErrTooManyRequests, Some ErrTooManyRequests, None])
   \<and> (\<exists>w' log. call () test_request test_sleep
          (test_world 10 10 0 0 0 [Some ErrTooManyRequests, Some ErrTooManyRequests, None])
        = Some (None, w', log) \<and> invocations log = 3
        \<and> map sint (pauses log) = [2500000000, 5000000000, 10000000000]
        \<and> total_slept log = 7 * sint minimumRateLimitDelay)"
proof -
  let ?as = "[Some ErrTooManyRequests, Some ErrTooManyRequests, None]"
  let ?w = "test_world 10 10 0 0 0 ?as"
  let ?J = "\<lambda>k v. v = test_world 10 10 0 0 0 (drop k ?as)"
  have p: "preventive ?w"
    by (simp add: preventive_iff test_world_def Now_def)
  have two: "k = 0 \<or> k = 1" if "k < 2" for k :: nat
    using that by auto
  have "\<exists>w' log. call () test_request test_sleep ?w = Some (None, w', log)
          \<and> invocations log = Suc 2
          \<and> (\<not> preventive ?w \<and> 2 \<le> (32::nat) \<longrightarrow>
                map sint (pauses log) = map (\<lambda>k. sint minimumRateLimitDelay * 2 ^ k) [0..<2]
                \<and> total_slept log = (2 ^ 2 - 1) * sint minimumRateLimitDelay)
          \<and> (preventive ?w \<and> 2 \<le> (31::nat) \<longrightarrow>
                map sint (pauses log) = map (\<lambda>k. sint minimumRateLimitDelay * 2 ^ k) [0..<Suc 2]
                \<and> total_slept log = (2 ^ Suc 2 - 1) * sint minimumRateLimitDelay)"
  proof (rule backoff_after_quota_failures [where J = ?J])
    show "if preventive ?w
          then \<exists>v. test_sleep () minimumRateLimitDelay ?w = (None, v) \<and> ?J 0 v
          else ?J 0 ?w"
      by (simp add: test_sleep_def)
    show "\<exists>v' v''. test_request v = (Some ErrTooManyRequests, v')
        \<and> test_sleep () (minimumRateLimitDelay * 2 ^ (if preventive ?w then Suc k else k)) v'
            = (None, v'')
        \<and> ?J (Suc k) v''"
      if "k < 2" "?J k v" for k v
      using two [OF that(1)] that(2)
      by (auto simp: test_request_def test_sleep_def test_world_def)
    show "\<exists>v'. test_request v = (None, v')" if "?J 2 v" for v
      using that by (simp add: test_request_def test_world_def)
    show "\<not> errors_Is None ErrTooManyRequests" by simp
  qed
  with p show ?thesis
    by (auto simp: numeral_3_eq_3 upt_rec sint_minimum)
qed

text \<open>
  With \<open>33\<close> failures and no preventive pause, each pause completing, the last pause
  is asked for \<open>2 ^ 32\<close> times the minimum, which as a signed 64-bit number of
  nanoseconds is negative: the pauses do not add up to
  \<open>(2 ^ 33 - 1) * minimumRateLimitDelay\<close>.
\<close>

theorem backoff_after_quota_failures_counterexample:
  "\<not> preventive (test_world 10 6 4 0 0 (replicate 33 (Some ErrTooManyRequests) @ [None]))
   \<and> summary (call () test_request test_sleep
        (test_world 10 6 4 0 0 (replicate 33 (Some ErrTooManyRequests) @ [None])))
     = Some (None, 34, 3028092403790448384)
   \<and> (3028092403790448384 :: int) \<noteq> (2 ^ 33 - 1) * sint minimumRateLimitDelay
   \<and> sint (last (pauses (record_of (call () test_request test_sleep
        (test_world 10 6 4 0 0 (replicate 33 (Some ErrTooManyRequests) @ [None]))))))
     = - 7709325833709551616"
proof -
  let ?w = "test_world 10 6 4 0 0 (replicate 33 (Some ErrTooManyRequests) @ [None])"
  have "\<not> preventive ?w"
    by (simp add: preventive_iff test_world_def)
  moreover have run: "call () test_request test_sleep ?w
      = Some (None, test_world 10 6 4 0 0 [], Invoked # backoff minimumRateLimitDelay 33)"
    by (simp add: test_run)
  then have "summary (call () test_request test_sleep ?w) = Some (None, 34, 3028092403790448384)"
    by (simp add: summary_def invocations_backoff total_slept_overflow del: backoff.simps)
  moreover have "(3028092403790448384 :: int) \<noteq> (2 ^ 33 - 1) * sint minimumRateLimitDelay"
    by (simp add: sint_minimum)
  moreover have "sint (last (pauses (record_of (call () test_request test_sleep ?w))))
      = - 7709325833709551616"
    using run by (simp add: record_of_def last_pause_overflow del: backoff.simps pauses.simps)
  ultimately show ?thesis by blast
qed

section \<open>Which results are returned\<close>

text \<open>
  C3 (as amended). Let the \<open>(N + 1)\<close>-th result of the work be the first one that does
  not match \<^verbatim>\<open>ErrTooManyRequests\<close> under \<^verbatim>\<open>errors.Is\<close>, and let each pause the call
  asks for complete; \<open>J k\<close> holds of the worlds in which the work is invoked for the
  \<open>(k + 1)\<close>-th time. Then \<^verbatim>\<open>call\<close> invokes the work exactly \<open>N + 1\<close> times and
  returns that result as it is, in the world the last invocation left.
\<close>

theorem first_other_result_returned:
  assumes first: "if preventive w
                  then \<exists>v. sleep ctx minimumRateLimitDelay w = (None, v) \<and> J 0 v
                  else J 0 w"
    and step: "\<And>k v. k < N \<Longrightarrow> J k v
                 \<Longrightarrow> \<exists>e v' v''. f v = (e, v') \<and> errors_Is e ErrTooManyRequests
                       \<and> sleep ctx (minimumRateLimitDelay
                                     * 2 ^ (if preventive w then Suc k else k)) v' = (None, v'')
                       \<and> J (Suc k) v''"
    and final: "\<And>v. J N v \<Longrightarrow> \<exists>v'. f v = (r, v') \<and> Q v'"
    and r: "\<not> errors_Is r ErrTooManyRequests"
  shows "\<exists>w' log. call ctx f sleep w = Some (r, w', log) \<and> invocations log = Suc N
           \<and> last log = Invoked \<and> Q w'"
proof -
  from call_run [where J = J and N = N and Q = Q and w = w and f = f and sleep = sleep
      and ctx = ctx and r = r, OF first step final r]
  obtain w' where run: "call ctx f sleep w
      = Some (r, w', if preventive w then backoff minimumRateLimitDelay (Suc N)
                     else Invoked # backoff minimumRateLimitDelay N)" and q: "Q w'"
    by blast
  have "last (Invoked # backoff minimumRateLimitDelay N) = Invoked"
  proof (cases N)
    case 0
    then show ?thesis by simp
  next
    case (Suc n)
    then show ?thesis by (simp add: last_backoff del: backoff.simps)
  qed
  with run q show ?thesis
    by (cases "preventive w") (simp_all add: invocations_backoff last_backoff del: backoff.simps)
qed

text \<open>
  \<^verbatim>\<open>Call\<close> with a deadline ten seconds away, and a work that fails with an error
  whose own \<^verbatim>\<open>Is\<close> method accepts the sentinel, then with an error that wraps the
  sentinel, then with another error. The pauses of 2.5 and of 5 seconds complete, a
  third one would not; the third result is returned after three invocations, 7.5
  seconds after the start.
\<close>

theorem first_other_result_returned_witness:
  "\<exists>w' log. Call deadline_wait 10000000000 test_request
       (test_world 10 6 4 0 0
          [Some (CustomError ''rate limited'' [ErrTooManyRequests] []),
           Some (WrapError ''retry later'' ErrTooManyRequests),
           Some (PlainError ''unexpected EOF'')])
     = Some (Some (PlainError ''unexpected EOF''), w', log)
     \<and> invocations log = 3 \<and> last log = Invoked
     \<and> w' = test_world 10 6 4 0 7500000000 []"
proof -
  let ?as = "[Some (CustomError ''rate limited'' [ErrTooManyRequests] []),
              Some (WrapError ''retry later'' ErrTooManyRequests),
              Some (PlainError ''unexpected EOF'')]"
  let ?w = "test_world 10 6 4 0 0 ?as"
  let ?J = "\<lambda>k v. v = test_world 10 6 4 0 (2500000000 * (2 ^ k - 1)) (drop k ?as)"
  have np: "\<not> preventive ?w"
    by (simp add: preventive_iff test_world_def)
  have two: "k = 0 \<or> k = 1" if "k < 2" for k :: nat
    using that by auto
  have "\<exists>w' log. call 10000000000 test_request (timer_sleep deadline_wait) ?w
          = Some (Some (PlainError ''unexpected EOF''), w', log) \<and> invocations log = Suc 2
          \<and> last log = Invoked \<and> w' = test_world 10 6 4 0 7500000000 []"
  proof (rule first_other_result_returned [where J = ?J])
    show "if preventive ?w
          then \<exists>v. timer_sleep deadline_wait 10000000000 minimumRateLimitDelay ?w = (None, v)
                 \<and> ?J 0 v
          else ?J 0 ?w"
      using np by simp
    show "\<exists>e v' v''. test_request v = (e, v') \<and> errors_Is e ErrTooManyRequests
        \<and> timer_sleep deadline_wait 10000000000
            (minimumRateLimitDelay * 2 ^ (if preventive ?w then Suc k else k)) v' = (None, v'')
        \<and> ?J (Suc k) v''"
      if "k < 2" "?J k v" for k v
      using two [OF that(1)] that(2) np
      by (auto simp: test_request_def timer_sleep_def deadline_wait_def test_world_def
          minimumRateLimitDelay_def Millisecond_def)
    show "\<exists>v'. test_request v = (Some (PlainError ''unexpected EOF''), v')
        \<and> v' = test_world 10 6 4 0 7500000000 []"
      if "?J 2 v" for v
      using that by (simp add: test_request_def test_world_def)
    show "\<not> errors_Is (Some (PlainError ''unexpected EOF'')) ErrTooManyRequests" by simp
  qed
  then show ?thesis by (simp add: numeral_3_eq_3 Call_def)
qed

text \<open>
  The first result of this work is not equal to the sentinel, it wraps it; it is not
  returned, and the work is invoked a second time.
\<close>

theorem first_other_result_returned_counterexample:
  "Some (WrapError ''retry later'' ErrTooManyRequests) \<noteq> Some ErrTooManyRequests
   \<and> call () test_request test_sleep
       (test_world 10 6 4 0 0 [Some (WrapError ''retry later'' ErrTooManyRequests), None])
     = Some (None, test_world 10 6 4 0 0 [], [Invoked, Slept minimumRateLimitDelay, Invoked])"
proof -
  let ?e = "WrapError ''retry later'' ErrTooManyRequests"
  let ?d = minimumRateLimitDelay
  have 1: "pause_phase () test_sleep ?d True (test_world 10 6 4 0 0 [Some ?e, None])
      = (Inr ?d, test_world 10 6 4 0 0 [Some ?e, None], [])"
    by (rule pause_phase_skip) (simp_all add: test_world_def)
  have 2: "test_request (test_world 10 6 4 0 0 [Some ?e, None])
      = (Some ?e, test_world 10 6 4 0 0 [None])"
    by (simp add: test_request_def test_world_def)
  have 3: "errors_Is (Some ?e) ErrTooManyRequests" by simp
  have 4: "pause_phase () test_sleep ?d False (test_world 10 6 4 0 0 [None])
      = (Inr (?d * 2), test_world 10 6 4 0 0 [None], [Slept ?d])"
    by (rule pause_phase_slept) (simp_all add: test_sleep_def)
  have 5: "test_request (test_world 10 6 4 0 0 [None]) = (None, test_world 10 6 4 0 0 [])"
    by (simp add: test_request_def test_world_def)
  have 6: "\<not> errors_Is None ErrTooManyRequests" by simp
  have "call () test_request test_sleep (test_world 10 6 4 0 0 [Some ?e, None])
      = call_loop () test_request test_sleep ?d False ([] @ [] @ [Invoked])
          (test_world 10 6 4 0 0 [None])"
    unfolding call_def using 1 2 3 by (rule loop_retry)
  also have "\<dots> = Some (None, test_world 10 6 4 0 0 [], ([] @ [] @ [Invoked]) @ [Slept ?d] @ [Invoked])"
    using 4 5 6 by (rule loop_return)
  finally show ?thesis by simp
qed

end
